theory Spec2Isabelle
  imports Complex_Main "HOL-Library.Sublist"
begin

section \<open>The Zipkin adapter of \<^verbatim>\<open>api/jaeger.js\<close>\<close>

text \<open>
  The adapter reshapes Zipkin spans into the trace model of the UI and translates the
  UI's search query into Zipkin's query parameters. A JavaScript string is modelled as
  a \<^typ>\<open>string\<close>, one \<^typ>\<open>char\<close> per code unit (the code units below 256); a property
  that may be missing (\<^verbatim>\<open>undefined\<close> or \<^verbatim>\<open>null\<close>) is an \<^typ>\<open>'a option\<close>; a number is an
  exact \<^typ>\<open>int\<close> or \<^typ>\<open>real\<close> (the rounding and the overflow of binary64 are not
  modelled); an object used as a dictionary is a map from property names to values
  (the accessor property \<^verbatim>\<open>__proto__\<close> of JavaScript objects is not modelled).
\<close>

subsection \<open>Source spans\<close>

record endpoint =
  serviceName :: string
  ipv4 :: "string option"

record annotation =
  a_timestamp :: int
  a_value :: string

text \<open>
  \<open>s_tags\<close> holds the entries of the \<^verbatim>\<open>tags\<close> object in the order in which
  \<^verbatim>\<open>Object.entries\<close> lists them.
\<close>

record span =
  s_id :: string
  traceId :: string
  parentId :: "string option"
  s_name :: string
  kind :: "string option"
  s_timestamp :: int
  s_duration :: int
  localEndpoint :: endpoint
  s_tags :: "(string \<times> string) list option"
  annotations :: "annotation list option"

subsection \<open>Target trace\<close>

text \<open>\<open>f_value\<close> is \<^verbatim>\<open>t[1]\<close>, which is \<^verbatim>\<open>undefined\<close> when the segment has no \<^verbatim>\<open>=\<close>.\<close>

record field =
  f_key :: string
  f_value :: "string option"

record log =
  l_timestamp :: int
  l_fields :: "field list"

record tag =
  t_key :: string
  t_value :: string

record reference =
  refType :: string
  r_traceID :: string
  r_spanID :: string

record tspan =
  spanID :: string
  traceID :: string
  processID :: string
  operationName :: string
  startTime :: int
  ts_duration :: int
  logs :: "log list"
  tags :: "tag list"
  references :: "reference list"





subsection \<open>References\<close>

text \<open>
  \<^verbatim>\<open>!span.parentId\<close> holds when \<^verbatim>\<open>parentId\<close> is missing and when it is the empty
  string.
\<close>

definition transformReferences :: "span \<Rightarrow> reference list" where
  "transformReferences sp =
     (case parentId sp of
        None \<Rightarrow> []
      | Some p \<Rightarrow>
          if p = [] then []
          else [\<lparr>refType = (if kind sp = Some ''CONSUMER'' then ''FOLLOWS_FROM'' else ''CHILD_OF''),
                 r_traceID = traceId sp,
                 r_spanID = p\<rparr>])"

definition transformTags :: "span \<Rightarrow> tag list" where
  "transformTags sp =
     (case s_tags sp of
        None \<Rightarrow> []
      | Some es \<Rightarrow> map (\<lambda>e. \<lparr>t_key = fst e, t_value = snd e\<rparr>) es)"


subsection \<open>Matching the key marker\<close>

text \<open>
  The members of the class \<^verbatim>\<open>\s\<close> among the code units below 256: tab, line feed,
  vertical tab, form feed, carriage return, space and no-break space.
\<close>

definition is_space :: "char \<Rightarrow> bool" where
  "is_space c \<longleftrightarrow>
     c \<in> {CHR 0x09, CHR 0x0A, CHR 0x0B, CHR 0x0C, CHR 0x0D, CHR 0x20, CHR 0xA0}"

text \<open>
  \<^verbatim>\<open>(\S+)=\<close> at the start of \<open>t\<close>: the group takes the whole run of characters that
  are not white space and gives characters back one at a time, down to one character,
  until the next character is \<^verbatim>\<open>=\<close>. The result is the text of the group.
\<close>

definition key_of :: "string \<Rightarrow> string option" where
  "key_of t =
     (let run = takeWhile (\<lambda>c. \<not> is_space c) t
      in map_option (\<lambda>n. take n t)
           (find (\<lambda>n. n < length t \<and> t ! n = CHR ''='') (rev [1..<Suc (length run)])))"

text \<open>
  One attempt of \<^verbatim>\<open>/(\s?((\S+)=))/\<close> at the start of \<open>t\<close>: \<^verbatim>\<open>\s?\<close> first takes a
  white space character when there is one, and takes nothing when the rest fails
  after that. The result is \<^verbatim>\<open>match[0]\<close> and \<^verbatim>\<open>match[3]\<close>.
\<close>

definition match_here :: "string \<Rightarrow> (string \<times> string) option" where
  "match_here t =
     (case (case t of [] \<Rightarrow> None | c # cs \<Rightarrow> if is_space c then map_option (Pair c) (key_of cs) else None) of
        Some (c, k) \<Rightarrow> Some (c # k @ ''='', k)
      | None \<Rightarrow> map_option (\<lambda>k. (k @ ''='', k)) (key_of t))"

text \<open>
  \<^verbatim>\<open>regex.exec(value)\<close> of the global expression. The argument is \<^verbatim>\<open>value\<close> from
  \<^verbatim>\<open>lastIndex\<close> on; the attempts go from left to right. The result is the index of the
  match counted from \<^verbatim>\<open>lastIndex\<close>, \<^verbatim>\<open>match[0]\<close> and \<^verbatim>\<open>match[3]\<close>; the next
  \<^verbatim>\<open>lastIndex\<close> is the end of the match.
\<close>

fun exec :: "string \<Rightarrow> (nat \<times> string \<times> string) option" where
  "exec [] = None"
| "exec (c # cs) =
     (case match_here (c # cs) of
        Some (m0, k) \<Rightarrow> Some (0, m0, k)
      | None \<Rightarrow> map_option (\<lambda>(i, m0, k). (Suc i, m0, k)) (exec cs))"

subsection \<open>String replace and split\<close>

text \<open>The index of the first occurrence of \<open>pat\<close> in a string.\<close>

fun index_of :: "string \<Rightarrow> string \<Rightarrow> nat option" where
  "index_of pat [] = (if pat = [] then Some 0 else None)"
| "index_of pat (c # cs) =
     (if prefix pat (c # cs) then Some 0 else map_option Suc (index_of pat cs))"

text \<open>
  The replacement text of \<^verbatim>\<open>String.prototype.replace\<close> for a string pattern: \<^verbatim>\<open>$$\<close>
  stands for a dollar sign, \<^verbatim>\<open>$&\<close> for the matched text, \<^verbatim>\<open>$`\<close> for the text before
  the match and \<^verbatim>\<open>$'\<close> for the text after it; without capture groups every other
  character stands for itself.
\<close>

fun expand :: "string \<Rightarrow> string \<Rightarrow> string \<Rightarrow> string \<Rightarrow> string" where
  "expand b m a (c # d # r) =
     (if c = CHR ''$'' \<and> d = CHR ''$'' then CHR ''$'' # expand b m a r
      else if c = CHR ''$'' \<and> d = CHR ''&'' then m @ expand b m a r
      else if c = CHR ''$'' \<and> d = CHR 0x60 then b @ expand b m a r
      else if c = CHR ''$'' \<and> d = CHR 0x27 then a @ expand b m a r
      else c # expand b m a (d # r))"
| "expand b m a [c] = [c]"
| "expand b m a [] = []"

text \<open>\<^verbatim>\<open>s.replace(pat, repl)\<close> with strings: only the first occurrence is replaced.\<close>

definition replace_js :: "string \<Rightarrow> string \<Rightarrow> string \<Rightarrow> string" where
  "replace_js s pat repl =
     (case index_of pat s of
        None \<Rightarrow> s
      | Some p \<Rightarrow>
          (let b = take p s; a = drop (p + length pat) s
           in b @ expand b pat a repl @ a))"

text \<open>\<^verbatim>\<open>s.split(sep)\<close> with a string separator and no limit.\<close>

function split_js :: "string \<Rightarrow> string \<Rightarrow> string list" where
  "split_js sep s =
     (if sep = [] then map (\<lambda>c. [c]) s
      else case index_of sep s of
             None \<Rightarrow> [s]
           | Some p \<Rightarrow> take p s # split_js sep (drop (p + length sep) s))"
  by pat_completeness auto
termination
proof (relation "measure (\<lambda>(sep, s). length s)")
  show "wf (measure (\<lambda>(sep, s). length s))" by simp
next
  fix sep s :: string and p :: nat
  assume sep: "sep \<noteq> []" and p: "index_of sep s = Some p"
  have "s \<noteq> []" using sep p by (cases s) auto
  then have "length (drop (p + length sep) s) < length s" using sep by simp
  then show "((sep, drop (p + length sep) s), (sep, s)) \<in> measure (\<lambda>(sep, s). length s)"
    by simp
qed

subsection \<open>Logs\<close>

definition sep_token :: string where
  "sep_token = ''__$key$__''"

text \<open>
  The \<^verbatim>\<open>while\<close> loop of \<^verbatim>\<open>transformLogs\<close>: \<open>rest\<close> is \<^verbatim>\<open>value\<close> from \<^verbatim>\<open>lastIndex\<close>
  on, and every match replaces the first occurrence of its text in \<^verbatim>\<open>fieldsValue\<close>.
\<close>

function replace_loop :: "string \<Rightarrow> string \<Rightarrow> string" where
  "replace_loop fieldsValue rest =
     (case exec rest of
        None \<Rightarrow> fieldsValue
      | Some (i, m0, k) \<Rightarrow>
          replace_loop (replace_js fieldsValue m0 (sep_token @ k @ ''=''))
            (drop (i + length m0) rest))"
  by pat_completeness auto
termination
proof (relation "measure (\<lambda>(fieldsValue, rest). length rest)")
  show "wf (measure (\<lambda>(fieldsValue, rest). length rest))" by simp
next
  fix fieldsValue rest :: string and x :: "nat \<times> string \<times> string"
    and i :: nat and y :: "string \<times> string" and m0 k :: string
  assume e: "exec rest = Some x" and x: "(i, y) = x" and y: "(m0, k) = y"
  have "m0 \<noteq> []" if "match_here t = Some (m0, k)" for t
    using that by (auto simp: match_here_def split: option.splits)
  then have m0: "m0 \<noteq> []" if "exec t = Some (j, m0, k)" for t j
    using that by (induction t arbitrary: j) (auto split: option.splits)
  have "rest \<noteq> []" using e by (cases rest) auto
  moreover have "m0 \<noteq> []" using m0 [of rest i] e x y by simp
  ultimately have "length (drop (i + length m0) rest) < length rest" by simp
  then show "((replace_js fieldsValue m0 (sep_token @ k @ ''=''), drop (i + length m0) rest),
      fieldsValue, rest) \<in> measure (\<lambda>(fieldsValue, rest). length rest)"
    by simp
qed

text \<open>\<^verbatim>\<open>prop => { const t = prop.split('='); return { key: t[0], value: t[1] }; }\<close>\<close>

definition field_of :: "string \<Rightarrow> field" where
  "field_of prop =
     (let t = split_js ''='' prop
      in \<lparr>f_key = hd t, f_value = (if 1 < length t then Some (t ! 1) else None)\<rparr>)"

text \<open>The constant \<^verbatim>\<open>fields\<close> that \<^verbatim>\<open>transformLogs\<close> computes from one annotation value.\<close>

definition annotation_fields :: "string \<Rightarrow> field list" where
  "annotation_fields v =
     map field_of (drop 1 (split_js sep_token (replace_loop v v)))"

definition transformLogs :: "span \<Rightarrow> log list" where
  "transformLogs sp =
     (case annotations sp of
        None \<Rightarrow> []
      | Some as \<Rightarrow>
          map (\<lambda>a. \<lparr>l_timestamp = a_timestamp a, l_fields = annotation_fields (a_value a)\<rparr>) as)"

text \<open>
  All matches of the key marker in a string, from left to right: the results of the
  successive calls of \<^verbatim>\<open>regex.exec\<close>, as \<^verbatim>\<open>match[0]\<close> and \<^verbatim>\<open>match[3]\<close>.
\<close>

function all_matches :: "string \<Rightarrow> (string \<times> string) list" where
  "all_matches rest =
     (case exec rest of
        None \<Rightarrow> []
      | Some (i, m0, k) \<Rightarrow> (m0, k) # all_matches (drop (i + length m0) rest))"
  by pat_completeness auto
termination
proof (relation "measure length")
  show "wf (measure length)" by simp
next
  fix rest :: string and x :: "nat \<times> string \<times> string"
    and i :: nat and y :: "string \<times> string" and m0 k :: string
  assume e: "exec rest = Some x" and x: "(i, y) = x" and y: "(m0, k) = y"
  have "m0 \<noteq> []" if "match_here t = Some (m0, k)" for t
    using that by (auto simp: match_here_def split: option.splits)
  then have m0: "m0 \<noteq> []" if "exec t = Some (j, m0, k)" for t j
    using that by (induction t arbitrary: j) (auto split: option.splits)
  have "rest \<noteq> []" using e by (cases rest) auto
  moreover have "m0 \<noteq> []" using m0 [of rest i] e x y by simp
  ultimately have "length (drop (i + length m0) rest) < length rest" by simp
  then show "(drop (i + length m0) rest, rest) \<in> measure length" by simp
qed

subsection \<open>Spans and traces\<close>

text \<open>The arrow function that \<^verbatim>\<open>transformTraceData\<close> maps over the spans.\<close>

definition transformSpan :: "span \<Rightarrow> tspan" where
  "transformSpan sp =
     \<lparr>spanID = s_id sp,
      traceID = traceId sp,
      processID = serviceName (localEndpoint sp),
      operationName = s_name sp,
      startTime = s_timestamp sp,
      ts_duration = s_duration sp,
      logs = transformLogs sp,
      tags = transformTags sp,
      references = transformReferences sp\<rparr>"





subsection \<open>Durations\<close>

definition is_digit :: "char \<Rightarrow> bool" where
  "is_digit c \<longleftrightarrow> c \<in> set ''0123456789''"

text \<open>\<^verbatim>\<open>[a-z]\<close> under the flag \<^verbatim>\<open>i\<close>.\<close>

definition is_letter :: "char \<Rightarrow> bool" where
  "is_letter c \<longleftrightarrow> c \<in> set ''abcdefghijklmnopqrstuvwxyzABCDEFGHIJKLMNOPQRSTUVWXYZ''"

text \<open>
  \<^verbatim>\<open>re.exec(duration)\<close> for \<^verbatim>\<open>/([0-9]+)([a-z]+)/gmi\<close> from index 0: the leftmost
  position where a run of digits is followed by a letter; the groups are the run of
  digits and the run of letters after it.
\<close>

fun exec_duration :: "string \<Rightarrow> (string \<times> string) option" where
  "exec_duration [] = None"
| "exec_duration (c # cs) =
     (let ds = takeWhile is_digit (c # cs);
          us = takeWhile is_letter (drop (length ds) (c # cs))
      in if ds \<noteq> [] \<and> us \<noteq> [] then Some (ds, us) else exec_duration cs)"

text \<open>\<^verbatim>\<open>parseInt(value, 10)\<close> on a string of decimal digits.\<close>

definition parseInt :: "string \<Rightarrow> nat" where
  "parseInt ds = foldl (\<lambda>n c. 10 * n + (of_char c - 48)) 0 ds"

text \<open>
  The library call \<^verbatim>\<open>moment.duration(n, unit).asMilliseconds()\<close> is the parameter
  \<open>asMilliseconds\<close>. A missing token (\<^verbatim>\<open>undefined\<close> or \<^verbatim>\<open>null\<close>) is \<open>None\<close>.
\<close>

definition durationToMs :: "(nat \<Rightarrow> string \<Rightarrow> real) \<Rightarrow> string option \<Rightarrow> bool \<Rightarrow> real option" where
  "durationToMs asMilliseconds duration nanos =
     (case duration of
        None \<Rightarrow> None
      | Some d \<Rightarrow>
          if d = [] then None
          else (case exec_duration d of
                  None \<Rightarrow> None
                | Some (v, unit) \<Rightarrow>
                    (let ms = asMilliseconds (parseInt v) unit;
                         ms = (if nanos then ms * 1000 else ms)
                     in if ms > 0 then Some ms else None)))"

text \<open>
  An instance of the library parameter for evaluation at concrete tokens: the units
  \<^verbatim>\<open>ms\<close>, \<^verbatim>\<open>s\<close>, \<^verbatim>\<open>m\<close>, \<^verbatim>\<open>h\<close>, \<^verbatim>\<open>d\<close> and \<^verbatim>\<open>w\<close> with their lengths in
  milliseconds, and zero for any other unit.
\<close>

definition unit_table :: "nat \<Rightarrow> string \<Rightarrow> real" where
  "unit_table n unit =
     (if unit = ''ms'' then real n
      else if unit = ''s'' then real n * 1000
      else if unit = ''m'' then real n * 60000
      else if unit = ''h'' then real n * 3600000
      else if unit = ''d'' then real n * 86400000
      else if unit = ''w'' then real n * 604800000
      else 0)"

subsection \<open>The search query\<close>

record query =
  operation :: string
  minDuration :: "string option"
  maxDuration :: "string option"
  q_end :: real
  limit :: int
  q_tags :: string
  lookback :: "string option"
  service :: string

text \<open>
  A field that \<^verbatim>\<open>searchTraces\<close> sets only under a condition is an option: \<open>None\<close>
  when the object has no such field. \<open>z_lookback\<close>, when set, holds the result of
  \<^verbatim>\<open>durationToMs\<close>, which may be \<^verbatim>\<open>null\<close>.
\<close>

record zipkin_query =
  spanName :: string
  z_minDuration :: "real option"
  z_maxDuration :: "real option"
  endTs :: real
  z_limit :: int
  annotationQuery :: string
  z_lookback :: "real option option"
  z_serviceName :: "string option"

text \<open>The object \<^verbatim>\<open>zipkinQuery\<close> that \<^verbatim>\<open>searchTraces\<close> builds from its argument.\<close>

definition zipkinQuery :: "(nat \<Rightarrow> string \<Rightarrow> real) \<Rightarrow> query \<Rightarrow> zipkin_query" where
  "zipkinQuery asMilliseconds q =
     \<lparr>spanName = operation q,
      z_minDuration = durationToMs asMilliseconds (minDuration q) True,
      z_maxDuration = durationToMs asMilliseconds (maxDuration q) True,
      endTs = q_end q / 1000,
      z_limit = limit q,
      annotationQuery = q_tags q,
      z_lookback =
        (case lookback q of
           None \<Rightarrow> None
         | Some l \<Rightarrow> if l = [] then None else Some (durationToMs asMilliseconds (Some l) False)),
      z_serviceName = (if service q \<noteq> ''all'' then Some (service q) else None)\<rparr>"


subsection \<open>Notions for the proofs about the loop\<close>

text \<open>
  A marker is what a match of the key marker looks like when it starts with white
  space. A text \<open>w\<close> already written by the loop is safe when no marker without dollar
  sign occurs in it, whatever follows.
\<close>

definition marker :: "string \<Rightarrow> bool" where
  "marker m \<longleftrightarrow>
     (\<exists>c k. is_space c \<and> k \<noteq> [] \<and> (\<forall>d\<in>set k. \<not> is_space d) \<and> m = c # k @ ''='')"

definition safe :: "string \<Rightarrow> bool" where
  "safe w \<longleftrightarrow>
     (\<forall>m x q. marker m \<and> CHR ''$'' \<notin> set m \<and> q < length w \<longrightarrow> \<not> prefix m (drop q (w @ x)))"

text \<open>
  The equations of the three loops are unfolded by hand in the proofs, one step at a
  time.
\<close>

declare split_js.simps [simp del] replace_loop.simps [simp del] all_matches.simps [simp del]

section \<open>The process table\<close>






section \<open>References\<close>

text \<open>
  C2, as stated: a span whose \<^verbatim>\<open>parentId\<close> is present gets exactly one reference. It
  fails for a span whose \<^verbatim>\<open>parentId\<close> is the empty string, which gets none.
\<close>

theorem references_parent_present_counterexample:
  "\<not> (parentId \<lparr>s_id = ''2'', traceId = ''T1'', parentId = Some '''', s_name = ''put'',
        kind = None, s_timestamp = 11, s_duration = 2,
        localEndpoint = \<lparr>serviceName = ''A'', ipv4 = None\<rparr>,
        s_tags = None, annotations = None\<rparr> \<noteq> None \<longrightarrow>
      length (references (transformSpan
        \<lparr>s_id = ''2'', traceId = ''T1'', parentId = Some '''', s_name = ''put'',
         kind = None, s_timestamp = 11, s_duration = 2,
         localEndpoint = \<lparr>serviceName = ''A'', ipv4 = None\<rparr>,
         s_tags = None, annotations = None\<rparr>)) = 1)"
  by (simp add: transformSpan_def transformReferences_def)

text \<open>
  C2, amended. \<^verbatim>\<open>references\<close> is empty when \<^verbatim>\<open>parentId\<close> is absent; when
  \<^verbatim>\<open>parentId\<close> is present and not the empty string, it is exactly one reference, whose
  \<^verbatim>\<open>refType\<close> is \<^verbatim>\<open>FOLLOWS_FROM\<close> if \<^verbatim>\<open>kind\<close> is \<^verbatim>\<open>CONSUMER\<close> and \<^verbatim>\<open>CHILD_OF\<close>
  otherwise, whose \<^verbatim>\<open>traceID\<close> is the span's \<^verbatim>\<open>traceId\<close> and whose \<^verbatim>\<open>spanID\<close> is its
  \<^verbatim>\<open>parentId\<close>.
\<close>

theorem references_of_parent:
  "(parentId sp = None \<longrightarrow> references (transformSpan sp) = []) \<and>
   (\<forall>p. parentId sp = Some p \<and> p \<noteq> [] \<longrightarrow>
      references (transformSpan sp) =
        [\<lparr>refType = (if kind sp = Some ''CONSUMER'' then ''FOLLOWS_FROM'' else ''CHILD_OF''),
          r_traceID = traceId sp, r_spanID = p\<rparr>])"
  by (simp add: transformSpan_def transformReferences_def)

theorem references_of_parent_witness:
  "references (transformSpan
      \<lparr>s_id = ''2'', traceId = ''T1'', parentId = Some ''1'', s_name = ''put'',
       kind = Some ''CONSUMER'', s_timestamp = 11, s_duration = 2,
       localEndpoint = \<lparr>serviceName = ''B'', ipv4 = None\<rparr>,
       s_tags = None, annotations = None\<rparr>) =
     [\<lparr>refType = ''FOLLOWS_FROM'', r_traceID = ''T1'', r_spanID = ''1''\<rparr>] \<and>
   references (transformSpan
      \<lparr>s_id = ''1'', traceId = ''T1'', parentId = None, s_name = ''get'',
       kind = None, s_timestamp = 10, s_duration = 5,
       localEndpoint = \<lparr>serviceName = ''A'', ipv4 = None\<rparr>,
       s_tags = None, annotations = None\<rparr>) = []"
  using references_of_parent [of "\<lparr>s_id = ''2'', traceId = ''T1'', parentId = Some ''1'', s_name = ''put'',
       kind = Some ''CONSUMER'', s_timestamp = 11, s_duration = 2,
       localEndpoint = \<lparr>serviceName = ''B'', ipv4 = None\<rparr>,
       s_tags = None, annotations = None\<rparr>"]
    references_of_parent [of "\<lparr>s_id = ''1'', traceId = ''T1'', parentId = None, s_name = ''get'',
       kind = None, s_timestamp = 10, s_duration = 5,
       localEndpoint = \<lparr>serviceName = ''A'', ipv4 = None\<rparr>,
       s_tags = None, annotations = None\<rparr>"]
  by simp

text \<open>
  C10. A span whose \<^verbatim>\<open>parentId\<close> is the empty string gets no reference, as a span
  without \<^verbatim>\<open>parentId\<close> does; a span gets a reference exactly when its \<^verbatim>\<open>parentId\<close> is
  present and not empty.
\<close>

theorem references_empty_parent:
  "(parentId sp = Some [] \<longrightarrow>
      references (transformSpan sp) = [] \<and>
      references (transformSpan sp) = references (transformSpan (sp\<lparr>parentId := None\<rparr>))) \<and>
   (references (transformSpan sp) \<noteq> [] \<longleftrightarrow> (\<exists>p. parentId sp = Some p \<and> p \<noteq> []))"
  by (simp add: transformSpan_def transformReferences_def split: option.split)

theorem references_empty_parent_witness:
  "references (transformSpan
      \<lparr>s_id = ''2'', traceId = ''T1'', parentId = Some '''', s_name = ''put'',
       kind = Some ''CONSUMER'', s_timestamp = 11, s_duration = 2,
       localEndpoint = \<lparr>serviceName = ''B'', ipv4 = None\<rparr>,
       s_tags = None, annotations = None\<rparr>) = []"
  using references_empty_parent [of "\<lparr>s_id = ''2'', traceId = ''T1'', parentId = Some '''', s_name = ''put'',
       kind = Some ''CONSUMER'', s_timestamp = 11, s_duration = 2,
       localEndpoint = \<lparr>serviceName = ''B'', ipv4 = None\<rparr>,
       s_tags = None, annotations = None\<rparr>"]
  by simp

section \<open>Durations\<close>

text \<open>
  C6. \<^verbatim>\<open>durationToMs\<close> has no failing branch: it returns \<^verbatim>\<open>null\<close> for a missing token
  and for the empty string, \<^verbatim>\<open>null\<close> when the token has no digits followed by letters,
  and \<^verbatim>\<open>null\<close> when the number of milliseconds it computes is not positive (as for
  \<^verbatim>\<open>0ms\<close>).
\<close>

theorem durationToMs_null:
  "durationToMs asMs None nanos = None \<and>
   durationToMs asMs (Some []) nanos = None \<and>
   (exec_duration d = None \<longrightarrow> durationToMs asMs (Some d) nanos = None) \<and>
   (\<forall>v u. exec_duration d = Some (v, u) \<and>
          (if nanos then asMs (parseInt v) u * 1000 else asMs (parseInt v) u) \<le> 0 \<longrightarrow>
      durationToMs asMs (Some d) nanos = None)"
  by (auto simp: durationToMs_def Let_def split: option.splits)

theorem durationToMs_null_witness:
  "exec_duration ''0ms'' = Some (''0'', ''ms'') \<and>
   unit_table (parseInt ''0'') ''ms'' = 0 \<and>
   durationToMs unit_table (Some ''0ms'') False = None \<and>
   exec_duration ''fast'' = None \<and>
   durationToMs unit_table (Some ''fast'') True = None"
proof -
  have e: "exec_duration ''0ms'' = Some (''0'', ''ms'')"
    by (simp add: is_digit_def is_letter_def)
  have u: "unit_table (parseInt ''0'') ''ms'' = 0"
    by (simp add: unit_table_def parseInt_def)
  have f: "exec_duration ''fast'' = None"
    by (simp add: is_digit_def is_letter_def)
  show ?thesis
    using e u f durationToMs_null [of unit_table False "''0ms''"]
      durationToMs_null [of unit_table True "''fast''"]
    by simp
qed





section \<open>The search query\<close>

text \<open>
  C9. The translated query has a \<^verbatim>\<open>serviceName\<close> field exactly when \<^verbatim>\<open>query.service\<close>
  is not \<^verbatim>\<open>all\<close>, and the field then holds \<^verbatim>\<open>query.service\<close>.
\<close>

theorem zipkinQuery_serviceName:
  "(z_serviceName (zipkinQuery asMs q) \<noteq> None \<longleftrightarrow> service q \<noteq> ''all'') \<and>
   (service q \<noteq> ''all'' \<longrightarrow> z_serviceName (zipkinQuery asMs q) = Some (service q))"
  by (simp add: zipkinQuery_def)

theorem zipkinQuery_serviceName_witness:
  "z_serviceName (zipkinQuery unit_table
      \<lparr>operation = ''get'', minDuration = None, maxDuration = None, q_end = 1000, limit = 20,
       q_tags = '''', lookback = Some ''1h'', service = ''svcA''\<rparr>) = Some ''svcA'' \<and>
   z_serviceName (zipkinQuery unit_table
      \<lparr>operation = ''get'', minDuration = None, maxDuration = None, q_end = 1000, limit = 20,
       q_tags = '''', lookback = Some ''1h'', service = ''all''\<rparr>) = None"
  using zipkinQuery_serviceName [of unit_table
      "\<lparr>operation = ''get'', minDuration = None, maxDuration = None, q_end = 1000, limit = 20,
       q_tags = '''', lookback = Some ''1h'', service = ''svcA''\<rparr>"]
    zipkinQuery_serviceName [of unit_table
      "\<lparr>operation = ''get'', minDuration = None, maxDuration = None, q_end = 1000, limit = 20,
       q_tags = '''', lookback = Some ''1h'', service = ''all''\<rparr>"]
  by simp

section \<open>Annotation fields\<close>

text \<open>
  C3, as stated: the fields of \<^verbatim>\<open>a=1 b=2\<close> are \<^verbatim>\<open>a\<close> with the value \<^verbatim>\<open>1\<close> followed by
  a space, and \<^verbatim>\<open>b\<close> with the value \<^verbatim>\<open>2\<close>. The code gives another result.
\<close>

theorem fields_a1_b2_counterexample:
  "annotation_fields ''a=1 b=2'' \<noteq>
     [\<lparr>f_key = ''a'', f_value = Some ''1 ''\<rparr>, \<lparr>f_key = ''b'', f_value = Some ''2''\<rparr>]"
  by code_simp

text \<open>
  C3, amended. The fields of \<^verbatim>\<open>a=1 b=2\<close> are, in this order, \<^verbatim>\<open>a\<close> with the value
  \<^verbatim>\<open>1\<close> and \<^verbatim>\<open>b\<close> with the value \<^verbatim>\<open>2\<close>: the space before \<^verbatim>\<open>b=\<close> belongs to the
  match of the key marker and is replaced with it.
\<close>

theorem fields_a1_b2:
  "annotation_fields ''a=1 b=2'' =
     [\<lparr>f_key = ''a'', f_value = Some ''1''\<rparr>, \<lparr>f_key = ''b'', f_value = Some ''2''\<rparr>]"
  by code_simp

theorem fields_a1_b2_witness:
  "map f_value (annotation_fields ''a=1 b=2'') = [Some ''1'', Some ''2'']"
  using fields_a1_b2 by simp

text \<open>
  C4. The value of a field is the rest of its segment after the first \<^verbatim>\<open>=\<close>. On the
  value \<^verbatim>\<open>k=x =y\<close>, which has the one key marker \<^verbatim>\<open>k=\<close>, the code returns the value
  \<^verbatim>\<open>x\<close> followed by a space, not the rest \<^verbatim>\<open>x =y\<close> of the segment:
  \<^verbatim>\<open>prop.split('=')\<close> splits at every \<^verbatim>\<open>=\<close> and \<^verbatim>\<open>t[1]\<close> is only the second piece.
\<close>

theorem field_value_second_equals:
  "all_matches ''k=x =y'' = [(''k='', ''k'')] \<and>
   annotation_fields ''k=x =y'' = [\<lparr>f_key = ''k'', f_value = Some ''x ''\<rparr>]"
  by code_simp


subsection \<open>The matches of the key marker\<close>

lemma not_space_eq [simp]: "\<not> is_space CHR ''=''"
  by (simp add: is_space_def)

lemma find_rev_upt_Some:
  "find P (rev [1..<Suc L]) = Some n \<longleftrightarrow>
     1 \<le> n \<and> n \<le> L \<and> P n \<and> (\<forall>m. n < m \<and> m \<le> L \<longrightarrow> \<not> P m)"
proof (induction L)
  case 0
  show ?case by auto
next
  case (Suc L)
  have "find P (rev [1..<Suc (Suc L)]) = (if P (Suc L) then Some (Suc L) else find P (rev [1..<Suc L]))"
    by simp
  then show ?case
    using Suc.IH by (auto simp: le_Suc_eq)
qed

lemma find_rev_upt_None:
  "find P (rev [1..<Suc L]) = None \<longleftrightarrow> (\<forall>m. 1 \<le> m \<and> m \<le> L \<longrightarrow> \<not> P m)"
proof (induction L)
  case 0
  show ?case by auto
next
  case (Suc L)
  have "find P (rev [1..<Suc (Suc L)]) = (if P (Suc L) then Some (Suc L) else find P (rev [1..<Suc L]))"
    by simp
  then show ?case
    using Suc.IH by (auto simp: le_Suc_eq)
qed

text \<open>The positions that \<open>key_of\<close> accepts: an \<^verbatim>\<open>=\<close> inside the first run, not at its start.\<close>

lemma eq_in_run:
  assumes "n < length t" "t ! n = CHR ''=''" "n \<le> length (takeWhile (\<lambda>c. \<not> is_space c) t)"
  shows "n < length (takeWhile (\<lambda>c. \<not> is_space c) t)"
proof (rule ccontr)
  assume "\<not> ?thesis"
  with assms have n: "n = length (takeWhile (\<lambda>c. \<not> is_space c) t)" by simp
  with assms(1) have "\<not> \<not> is_space (t ! n)"
    using nth_length_takeWhile [of "\<lambda>c. \<not> is_space c" t] by simp
  with assms(2) show False by simp
qed

lemma key_of_Some:
  "key_of t = Some k \<longleftrightarrow>
     (\<exists>n. k = take n t \<and> 1 \<le> n \<and> n < length (takeWhile (\<lambda>c. \<not> is_space c) t) \<and>
          t ! n = CHR ''='' \<and>
          (\<forall>m. n < m \<and> m < length (takeWhile (\<lambda>c. \<not> is_space c) t) \<longrightarrow> t ! m \<noteq> CHR ''=''))"
  (is "?l \<longleftrightarrow> ?r")
proof
  let ?L = "length (takeWhile (\<lambda>c. \<not> is_space c) t)"
  have le: "?L \<le> length t" by (rule length_takeWhile_le)
  {
    assume ?l
    then obtain n where k: "k = take n t"
      and f: "find (\<lambda>n. n < length t \<and> t ! n = CHR ''='') (rev [1..<Suc ?L]) = Some n"
      by (auto simp only: key_of_def Let_def map_option_eq_Some)
    from f have n: "1 \<le> n" "n \<le> ?L" "n < length t" "t ! n = CHR ''=''"
      and mx: "\<forall>m. n < m \<and> m \<le> ?L \<longrightarrow> \<not> (m < length t \<and> t ! m = CHR ''='')"
      unfolding find_rev_upt_Some by blast+
    have "n < ?L" using n by (intro eq_in_run) auto
    moreover have "t ! m \<noteq> CHR ''=''" if "n < m" "m < ?L" for m
      using mx that le by auto
    ultimately show ?r using k n by blast
  }
  {
    assume ?r
    then obtain n where k: "k = take n t" and n: "1 \<le> n" "n < ?L" "t ! n = CHR ''=''"
      and mx: "\<forall>m. n < m \<and> m < ?L \<longrightarrow> t ! m \<noteq> CHR ''=''"
      by blast
    have "\<not> (m < length t \<and> t ! m = CHR ''='')" if "n < m" "m \<le> ?L" for m
    proof
      assume a: "m < length t \<and> t ! m = CHR ''=''"
      then have "m < ?L" using that by (intro eq_in_run) auto
      with mx that a show False by auto
    qed
    then have "find (\<lambda>n. n < length t \<and> t ! n = CHR ''='') (rev [1..<Suc ?L]) = Some n"
      unfolding find_rev_upt_Some using n le by auto
    then show ?l using k by (simp only: key_of_def Let_def option.map)
  }
qed

lemma key_of_None:
  "key_of t = None \<longleftrightarrow>
     (\<forall>m. 1 \<le> m \<and> m < length (takeWhile (\<lambda>c. \<not> is_space c) t) \<longrightarrow> t ! m \<noteq> CHR ''='')"
  (is "?l \<longleftrightarrow> ?r")
proof -
  let ?L = "length (takeWhile (\<lambda>c. \<not> is_space c) t)"
  have le: "?L \<le> length t" by (rule length_takeWhile_le)
  have "?l \<longleftrightarrow> find (\<lambda>n. n < length t \<and> t ! n = CHR ''='') (rev [1..<Suc ?L]) = None"
    by (simp only: key_of_def Let_def map_option_is_None)
  also have "\<dots> \<longleftrightarrow> (\<forall>m. 1 \<le> m \<and> m \<le> ?L \<longrightarrow> \<not> (m < length t \<and> t ! m = CHR ''=''))"
    by (rule find_rev_upt_None)
  also have "\<dots> \<longleftrightarrow> ?r"
  proof
    assume a: "\<forall>m. 1 \<le> m \<and> m \<le> ?L \<longrightarrow> \<not> (m < length t \<and> t ! m = CHR ''='')"
    show ?r using a le by auto
  next
    assume r: ?r
    show "\<forall>m. 1 \<le> m \<and> m \<le> ?L \<longrightarrow> \<not> (m < length t \<and> t ! m = CHR ''='')"
    proof (intro allI impI notI)
      fix m assume m: "1 \<le> m \<and> m \<le> ?L" and a: "m < length t \<and> t ! m = CHR ''=''"
      then have "m < ?L" by (intro eq_in_run) auto
      with r m a show False by auto
    qed
  qed
  finally show ?thesis .
qed


lemma takeWhile_drop:
  "j \<le> length (takeWhile P xs) \<Longrightarrow> takeWhile P (drop j xs) = drop j (takeWhile P xs)"
proof (induction xs arbitrary: j)
  case Nil
  show ?case by simp
next
  case (Cons x xs)
  show ?case
  proof (cases j)
    case 0
    then show ?thesis by simp
  next
    case (Suc j')
    with Cons.prems have "P x" by (auto split: if_splits)
    with Cons Suc show ?thesis by simp
  qed
qed

lemma key_of_SomeD:
  assumes "key_of t = Some k"
  shows "k \<noteq> []" and "\<forall>c\<in>set k. \<not> is_space c" and "\<exists>x. t = k @ ''='' @ x"
    and "key_of (drop (Suc (length k)) t) = None"
proof -
  let ?P = "\<lambda>c. \<not> is_space c"
  let ?L = "length (takeWhile ?P t)"
  from assms obtain n where k: "k = take n t" and n: "1 \<le> n" "n < ?L" "t ! n = CHR ''=''"
    and mx: "\<forall>m. n < m \<and> m < ?L \<longrightarrow> t ! m \<noteq> CHR ''=''"
    unfolding key_of_Some by blast
  have le: "?L \<le> length t" by (rule length_takeWhile_le)
  have len: "length k = n" using k n le by simp
  show "k \<noteq> []" using len n by auto
  have "k = take n (takeWhile ?P t)"
  proof -
    have "take n (takeWhile ?P t) = take n (take ?L t)"
      using takeWhile_eq_take [of ?P t] by simp
    also have "\<dots> = take n t" using n by (simp add: min_def)
    finally show ?thesis using k by simp
  qed
  then have "set k \<subseteq> set (takeWhile ?P t)" by (metis set_take_subset)
  then show "\<forall>c\<in>set k. \<not> is_space c" by (auto dest: set_takeWhileD)
  have "t = take n t @ t ! n # drop (Suc n) t"
    using n le by (intro id_take_nth_drop) simp
  then have "t = k @ ''='' @ drop (Suc n) t" using k n by simp
  then show "\<exists>x. t = k @ ''='' @ x" ..
  have tw: "takeWhile ?P (drop (Suc n) t) = drop (Suc n) (takeWhile ?P t)"
    using n by (intro takeWhile_drop) simp
  have "drop (Suc n) t ! m \<noteq> CHR ''=''"
    if "1 \<le> m" "m < length (takeWhile ?P (drop (Suc n) t))" for m
  proof -
    from that tw have "Suc n + m < ?L" by simp
    moreover have "drop (Suc n) t ! m = t ! (Suc n + m)"
      using \<open>Suc n + m < ?L\<close> le by simp
    ultimately show ?thesis using mx by simp
  qed
  then show "key_of (drop (Suc (length k)) t) = None"
    unfolding key_of_None len by blast
qed

lemma key_of_Cons:
  assumes "\<not> is_space c" "key_of t \<noteq> None"
  shows "key_of (c # t) \<noteq> None"
proof -
  from assms(2) obtain m where m: "1 \<le> m" "m < length (takeWhile (\<lambda>c. \<not> is_space c) t)"
    "t ! m = CHR ''=''"
    unfolding key_of_None by blast
  have "1 \<le> Suc m \<and> Suc m < length (takeWhile (\<lambda>c. \<not> is_space c) (c # t)) \<and>
        (c # t) ! Suc m = CHR ''=''"
    using m assms(1) by simp
  then show ?thesis unfolding key_of_None by blast
qed

lemma key_of_marker:
  assumes "k \<noteq> []" "\<forall>c\<in>set k. \<not> is_space c"
  shows "key_of (k @ ''='' @ x) \<noteq> None"
proof -
  have "takeWhile (\<lambda>c. \<not> is_space c) (k @ ''='' @ x) =
          k @ takeWhile (\<lambda>c. \<not> is_space c) (''='' @ x)"
    using assms(2) by (intro takeWhile_append2) simp
  then have "1 \<le> length k \<and>
      length k < length (takeWhile (\<lambda>c. \<not> is_space c) (k @ ''='' @ x)) \<and>
      (k @ ''='' @ x) ! length k = CHR ''=''"
    using assms(1) by (cases k) simp_all
  then show ?thesis unfolding key_of_None by blast
qed

lemma match_here_SomeD:
  assumes "match_here t = Some (m0, k)"
  shows "k \<noteq> []" and "\<forall>c\<in>set k. \<not> is_space c" and "\<exists>x. t = m0 @ x"
    and "key_of (drop (length m0) t) = None"
    and "(\<exists>c. is_space c \<and> m0 = c # k @ ''='') \<or> (m0 = k @ ''='' \<and> key_of t = Some k)"
proof -
  from assms consider
    (sp) c cs where "t = c # cs" "is_space c" "key_of cs = Some k" "m0 = c # k @ ''=''"
    | (ns) "key_of t = Some k" "m0 = k @ ''=''"
    by (auto simp: match_here_def split: option.splits list.splits if_splits)
  then have "k \<noteq> [] \<and> (\<forall>c\<in>set k. \<not> is_space c) \<and> (\<exists>x. t = m0 @ x) \<and>
      key_of (drop (length m0) t) = None \<and>
      ((\<exists>c. is_space c \<and> m0 = c # k @ ''='') \<or> (m0 = k @ ''='' \<and> key_of t = Some k))"
  proof cases
    case sp
    from key_of_SomeD [OF sp(3)] sp(1,2,4) show ?thesis by auto
  next
    case ns
    from key_of_SomeD [OF ns(1)] ns show ?thesis by auto
  qed
  then show "k \<noteq> []" and "\<forall>c\<in>set k. \<not> is_space c" and "\<exists>x. t = m0 @ x"
    and "key_of (drop (length m0) t) = None"
    and "(\<exists>c. is_space c \<and> m0 = c # k @ ''='') \<or> (m0 = k @ ''='' \<and> key_of t = Some k)"
    by blast+
qed

lemma match_here_key:
  "key_of t \<noteq> None \<Longrightarrow> match_here t \<noteq> None"
  by (auto simp: match_here_def split: option.splits list.splits)

lemma match_here_Cons:
  "key_of t \<noteq> None \<Longrightarrow> match_here (c # t) \<noteq> None"
  using key_of_Cons [of c t]
  by (auto simp: match_here_def split: option.splits)

lemma match_here_marker:
  assumes "k \<noteq> []" "\<forall>c\<in>set k. \<not> is_space c"
  shows "match_here (c # k @ ''='' @ x) \<noteq> None"
  using key_of_marker [OF assms, of x] by (rule match_here_Cons)

lemma exec_SomeD:
  assumes "exec rest = Some (i, m0, k)"
  shows "i < length rest" and "match_here (drop i rest) = Some (m0, k)"
    and "\<forall>q<i. match_here (drop q rest) = None"
proof -
  have "i < length rest \<and> match_here (drop i rest) = Some (m0, k) \<and>
        (\<forall>q<i. match_here (drop q rest) = None)"
    using assms
  proof (induction rest arbitrary: i)
    case Nil
    then show ?case by simp
  next
    case (Cons c cs)
    show ?case
    proof (cases "match_here (c # cs)")
      case None
      with Cons.prems obtain j where j: "i = Suc j" "exec cs = Some (j, m0, k)"
        by (auto split: option.splits)
      from Cons.IH [OF j(2)] None j(1) show ?thesis
        by (auto simp: less_Suc_eq_0_disj)
    next
      case (Some a)
      with Cons.prems show ?thesis by (auto split: prod.splits)
    qed
  qed
  then show "i < length rest" and "match_here (drop i rest) = Some (m0, k)"
    and "\<forall>q<i. match_here (drop q rest) = None"
    by blast+
qed

lemma exec_key_at_start:
  assumes "exec rest = Some (i, m0, k)" "key_of (drop i rest) \<noteq> None"
  shows "i = 0"
proof (rule ccontr)
  assume "i \<noteq> 0"
  then obtain j where j: "i = Suc j" by (cases i) auto
  from exec_SomeD [OF assms(1)] j have "j < length rest" "match_here (drop j rest) = None"
    by auto
  moreover have "drop j rest = rest ! j # drop i rest"
    using \<open>j < length rest\<close> j by (simp add: Cons_nth_drop_Suc)
  ultimately show False using match_here_Cons [OF assms(2), of "rest ! j"] by simp
qed


lemma index_of_first:
  assumes "\<forall>q<length w. \<not> prefix pat (drop q (w @ pat @ x))"
  shows "index_of pat (w @ pat @ x) = Some (length w)"
  using assms
proof (induction w)
  case Nil
  have "prefix pat (pat @ x)" by simp
  then show ?case by (cases "pat @ x") auto
next
  case (Cons c w)
  from Cons.prems have "\<not> prefix pat (c # w @ pat @ x)" by fastforce
  moreover have "\<forall>q<length w. \<not> prefix pat (drop q (w @ pat @ x))"
    using Cons.prems by fastforce
  ultimately show ?case using Cons.IH by simp
qed

lemma expand_plain:
  "CHR ''$'' \<notin> set s \<Longrightarrow> expand b m a s = s"
  by (induction b m a s rule: expand.induct) auto

lemma expand_Cons:
  "c \<noteq> CHR ''$'' \<Longrightarrow> expand b m a (c # s) = c # expand b m a s"
  by (cases s) simp_all

lemma expand_sep:
  assumes "CHR ''$'' \<notin> set k"
  shows "expand b m a (sep_token @ k @ ''='') = sep_token @ k @ ''=''"
proof -
  have "expand b m a (k @ ''='') = k @ ''=''"
    using assms by (intro expand_plain) simp
  moreover obtain c s where "k @ ''='' = c # s" by (cases k) auto
  ultimately show ?thesis
    by (simp add: sep_token_def expand_Cons)
qed

lemma replace_js_first:
  assumes "\<forall>q<length w. \<not> prefix pat (drop q (w @ pat @ x))" "CHR ''$'' \<notin> set k"
  shows "replace_js (w @ pat @ x) pat (sep_token @ k @ ''='') = w @ sep_token @ k @ ''='' @ x"
  using index_of_first [OF assms(1)] expand_sep [OF assms(2)]
  by (simp add: replace_js_def Let_def)

lemma sep_not_prefix:
  assumes "CHR ''$'' \<notin> set r" "r \<noteq> []"
  shows "\<not> prefix sep_token (r @ sep_token @ x)"
proof -
  obtain c r' where r: "r = c # r'" using assms(2) by (cases r) auto
  show ?thesis
  proof (cases r')
    case Nil
    with r show ?thesis by (simp add: sep_token_def)
  next
    case (Cons d r'')
    with r assms(1) show ?thesis by (cases r'') (auto simp: sep_token_def)
  qed
qed

lemma index_of_sep:
  assumes "CHR ''$'' \<notin> set u"
  shows "index_of sep_token (u @ sep_token @ x) = Some (length u)"
proof (rule index_of_first, intro allI impI)
  fix q assume "q < length u"
  then have "drop q (u @ sep_token @ x) = drop q u @ sep_token @ x" "drop q u \<noteq> []"
    "CHR ''$'' \<notin> set (drop q u)"
    using assms by (auto dest: in_set_dropD)
  then show "\<not> prefix sep_token (drop q (u @ sep_token @ x))"
    using sep_not_prefix by simp
qed

lemma index_of_no_sep:
  "CHR ''$'' \<notin> set u \<Longrightarrow> index_of sep_token u = None"
proof (induction u)
  case Nil
  show ?case by (simp add: sep_token_def)
next
  case (Cons c u)
  have "\<not> prefix sep_token (c # u)"
  proof
    assume "prefix sep_token (c # u)"
    then have "set sep_token \<subseteq> set (c # u)" by (rule set_mono_prefix)
    with Cons.prems show False by (auto simp: sep_token_def)
  qed
  with Cons show ?case by simp
qed

lemma split_sep:
  assumes "CHR ''$'' \<notin> set u" "\<forall>s\<in>set segs. CHR ''$'' \<notin> set s"
  shows "split_js sep_token (u @ concat (map ((@) sep_token) segs)) = u # segs"
  using assms
proof (induction segs arbitrary: u)
  case Nil
  have "sep_token \<noteq> []" by (simp add: sep_token_def)
  then show ?case
    using index_of_no_sep [OF Nil(1)] by (subst split_js.simps) simp
next
  case (Cons s segs)
  have ne: "sep_token \<noteq> []" by (simp add: sep_token_def)
  let ?x = "s @ concat (map ((@) sep_token) segs)"
  have i: "index_of sep_token (u @ sep_token @ ?x) = Some (length u)"
    using Cons.prems(1) by (rule index_of_sep)
  have "split_js sep_token (u @ sep_token @ ?x) = u # split_js sep_token ?x"
    using ne i by (subst split_js.simps) simp
  moreover have "split_js sep_token ?x = s # segs"
    using Cons.prems by (intro Cons.IH) simp_all
  ultimately show ?case by simp
qed


lemma sep_no_space: "\<forall>c\<in>set sep_token. \<not> is_space c"
  by (simp add: sep_token_def is_space_def)

lemma safe_step:
  assumes s: "safe w" and pre: "CHR ''$'' \<notin> set pre"
    and skip: "\<forall>q<length pre. match_here (drop q (pre @ y)) = None"
    and k: "\<forall>c\<in>set k. \<not> is_space c"
  shows "safe (w @ pre @ sep_token @ k @ ''='')"
  unfolding safe_def
proof (intro allI impI notI, elim conjE)
  fix m x q
  assume m: "marker m" and df: "CHR ''$'' \<notin> set m"
    and q: "q < length (w @ pre @ sep_token @ k @ ''='')"
    and p: "prefix m (drop q ((w @ pre @ sep_token @ k @ ''='') @ x))"
  from m obtain c k' where c: "is_space c" "k' \<noteq> []" "\<forall>d\<in>set k'. \<not> is_space d"
    and mk: "m = c # k' @ ''=''"
    unfolding marker_def by blast
  consider (a) "q < length w" | (b) "length w \<le> q" "q < length w + length pre"
    | (c) "length w + length pre \<le> q"
    by linarith
  then show False
  proof cases
    case a
    have "prefix m (drop q (w @ (pre @ sep_token @ k @ ''='' @ x)))" using p by simp
    with s m df a show False unfolding safe_def by blast
  next
    case b
    define r where "r = drop (q - length w) pre"
    have r: "r \<noteq> []" "CHR ''$'' \<notin> set r"
      using b pre by (auto simp: r_def dest: in_set_dropD)
    have "drop q ((w @ pre @ sep_token @ k @ ''='') @ x) = r @ sep_token @ k @ ''='' @ x"
      using b by (simp add: r_def)
    with p have "prefix m (r @ sep_token @ k @ ''='' @ x)" by simp
    then consider (in_r) "prefix m r"
      | (over) us where "m = r @ us" "us \<noteq> []" "prefix us (sep_token @ k @ ''='' @ x)"
      by (cases "\<exists>us. m = r @ us \<and> us \<noteq> []") (auto simp: prefix_append)
    then show False
    proof cases
      case in_r
      then obtain z where "r = m @ z" by (auto simp: prefix_def)
      then have "drop (q - length w) (pre @ y) = c # k' @ ''='' @ (z @ y)"
        using b by (simp add: r_def mk)
      moreover have "match_here (c # k' @ ''='' @ (z @ y)) \<noteq> None"
        using c(2,3) by (rule match_here_marker)
      moreover have "match_here (drop (q - length w) (pre @ y)) = None"
        using skip b by (intro skip [rule_format]) simp
      ultimately show False by simp
    next
      case over
      have last: "last m = CHR ''=''" by (simp add: mk)
      from over(1,2) have lu: "last us = CHR ''=''" using last by simp
      from over(1) df have du: "CHR ''$'' \<notin> set us" by simp
      obtain a us1 where u1: "us = a # us1" using over(2) by (cases us) auto
      with over(3) have a: "a = CHR ''_''" by (simp add: sep_token_def)
      show False
      proof (cases us1)
        case Nil
        with u1 a lu show False by simp
      next
        case (Cons a2 us2)
        with u1 over(3) have a2: "a2 = CHR ''_''" by (simp add: sep_token_def)
        show False
        proof (cases us2)
          case Nil
          with Cons u1 a2 lu show False by simp
        next
          case (Cons a3 us3)
          with \<open>us1 = a2 # us2\<close> u1 over(3) have "a3 = CHR ''$''" by (simp add: sep_token_def)
          with Cons \<open>us1 = a2 # us2\<close> u1 du show False by simp
        qed
      qed
    qed
  next
    case c
    define t where "t = drop (q - length w - length pre) (sep_token @ k @ ''='')"
    have t: "t \<noteq> []" using c q by (simp add: t_def)
    have "q - length w - length pre < length (sep_token @ k @ ''='')"
      using c q by simp
    then have "drop (q - length w - length pre) ((sep_token @ k @ ''='') @ x) = t @ x"
      unfolding t_def by (intro drop_append [THEN trans]) simp
    moreover have "drop q ((w @ pre @ sep_token @ k @ ''='') @ x) =
        drop (q - length w - length pre) ((sep_token @ k @ ''='') @ x)"
      using c by simp
    ultimately have "drop q ((w @ pre @ sep_token @ k @ ''='') @ x) = t @ x"
      by simp
    with p mk t have "hd t = c" by (cases t) auto
    moreover have "hd t \<in> set (sep_token @ k @ ''='')"
      using t by (metis hd_in_set in_set_dropD t_def)
    ultimately show False using \<open>is_space c\<close> k sep_no_space by auto
  qed
qed


lemma safe_Nil: "safe []"
  by (simp add: safe_def)

lemma replace_loop_segments:
  assumes "CHR ''$'' \<notin> set rest" "safe w" "w = [] \<or> key_of rest = None"
  shows "\<exists>u segs. replace_loop (w @ rest) rest = w @ u @ concat (map ((@) sep_token) segs) \<and>
           CHR ''$'' \<notin> set u \<and> (\<forall>s\<in>set segs. CHR ''$'' \<notin> set s) \<and>
           map (takeWhile (\<lambda>c. c \<noteq> CHR ''='')) segs =
             map (\<lambda>(m0, k). takeWhile (\<lambda>c. c \<noteq> CHR ''='') k) (all_matches rest)"
  using assms
proof (induction "length rest" arbitrary: rest w rule: less_induct)
  case less
  show ?case
  proof (cases "exec rest")
    case None
    have "replace_loop (w @ rest) rest = w @ rest"
      by (subst replace_loop.simps) (simp add: None)
    moreover have "all_matches rest = []"
      by (subst all_matches.simps) (simp add: None)
    ultimately show ?thesis
      using less.prems(1) by (intro exI [of _ rest] exI [of _ "[]"]) simp
  next
    case (Some a)
    obtain i m0 k where a: "a = (i, m0, k)" by (cases a)
    have ex: "exec rest = Some (i, m0, k)" using Some a by simp
    note e = exec_SomeD [OF ex]
    note mh = match_here_SomeD [OF e(2)]
    define pre where "pre = take i rest"
    define rest' where "rest' = drop (i + length m0) rest"
    from mh(3) obtain x where x: "drop i rest = m0 @ x" ..
    have "rest' = drop (length m0) (drop i rest)"
      by (simp add: rest'_def add.commute)
    then have x': "rest' = x" using x by simp
    have "rest = take i rest @ drop i rest" by simp
    then have rest: "rest = pre @ m0 @ rest'"
      using x x' by (simp add: pre_def)
    have lp: "length pre = i" using e(1) by (simp add: pre_def)
    have dpre: "CHR ''$'' \<notin> set pre" and dm: "CHR ''$'' \<notin> set m0"
      and drest': "CHR ''$'' \<notin> set rest'"
      using less.prems(1) by (subst (asm) rest, simp)+
    have dk: "CHR ''$'' \<notin> set k" using mh(5) dm by auto
    have key': "key_of rest' = None"
      using mh(4) x x' by simp
    have skip: "\<forall>q<length pre. match_here (drop q (pre @ m0 @ rest')) = None"
      using e(3) lp rest by simp
    have first: "\<forall>q<length (w @ pre). \<not> prefix m0 (drop q ((w @ pre) @ m0 @ rest'))"
    proof (intro allI impI notI)
      fix q
      assume q: "q < length (w @ pre)"
        and p: "prefix m0 (drop q ((w @ pre) @ m0 @ rest'))"
      from mh(5) show False
      proof
        assume "\<exists>c. is_space c \<and> m0 = c # k @ ''=''"
        then obtain c where c: "is_space c" "m0 = c # k @ ''=''" by blast
        then have mk: "marker m0" using mh(1,2) unfolding marker_def by blast
        show False
        proof (cases "q < length w")
          case True
          have "prefix m0 (drop q (w @ (pre @ m0 @ rest')))" using p by simp
          with less.prems(2) mk dm True show False unfolding safe_def by blast
        next
          case False
          then have q': "q - length w < length pre" using q by simp
          have "drop q ((w @ pre) @ m0 @ rest') = drop (q - length w) (pre @ m0 @ rest')"
            using False by simp
          with p obtain z where "drop (q - length w) (pre @ m0 @ rest') = c # k @ ''='' @ z"
            by (auto simp: prefix_def c(2))
          moreover have "match_here (c # k @ ''='' @ z) \<noteq> None"
            using mh(1,2) by (rule match_here_marker)
          moreover have "match_here (drop (q - length w) (pre @ m0 @ rest')) = None"
            using q' by (rule skip [rule_format])
          ultimately show False by simp
        qed
      next
        assume k: "m0 = k @ ''='' \<and> key_of (drop i rest) = Some k"
        then have "i = 0" using exec_key_at_start [OF ex] by simp
        with k have "key_of rest \<noteq> None" by simp
        with less.prems(3) have "w = []" by simp
        with \<open>i = 0\<close> lp q show False by simp
      qed
    qed
    have rj: "replace_js (w @ rest) m0 (sep_token @ k @ ''='') =
        (w @ pre @ sep_token @ k @ ''='') @ rest'"
      using replace_js_first [OF first dk] by (subst rest) simp
    have step: "replace_loop (w @ rest) rest =
        replace_loop ((w @ pre @ sep_token @ k @ ''='') @ rest') rest'"
      by (subst replace_loop.simps) (simp add: ex rj rest'_def)
    have am: "all_matches rest = (m0, k) # all_matches rest'"
      by (subst all_matches.simps) (simp add: ex rest'_def)
    have safe': "safe (w @ pre @ sep_token @ k @ ''='')"
      using less.prems(2) dpre skip mh(2) by (rule safe_step)
    have "m0 \<noteq> []" using mh(5) by auto
    moreover have "length rest = length pre + length m0 + length rest'"
      by (subst rest) simp
    ultimately have lt: "length rest' < length rest" by simp
    from less.hyps [OF lt drest' safe' disjI2 [OF key']]
    obtain u segs where
      r: "replace_loop ((w @ pre @ sep_token @ k @ ''='') @ rest') rest' =
            (w @ pre @ sep_token @ k @ ''='') @ u @ concat (map ((@) sep_token) segs)"
      and du: "CHR ''$'' \<notin> set u" and ds: "\<forall>s\<in>set segs. CHR ''$'' \<notin> set s"
      and ks: "map (takeWhile (\<lambda>c. c \<noteq> CHR ''='')) segs =
             map (\<lambda>(m0, k). takeWhile (\<lambda>c. c \<noteq> CHR ''='') k) (all_matches rest')"
      by blast
    have tk: "takeWhile (\<lambda>c. c \<noteq> CHR ''='') (k @ ''='' @ u) = takeWhile (\<lambda>c. c \<noteq> CHR ''='') k"
      by (simp add: takeWhile_tail)
    have "replace_loop (w @ rest) rest =
        w @ pre @ concat (map ((@) sep_token) ((k @ ''='' @ u) # segs))"
      using step r by simp
    moreover have "\<forall>s\<in>set ((k @ ''='' @ u) # segs). CHR ''$'' \<notin> set s"
      using dk du ds by simp
    moreover have "map (takeWhile (\<lambda>c. c \<noteq> CHR ''='')) ((k @ ''='' @ u) # segs) =
        map (\<lambda>(m0, k). takeWhile (\<lambda>c. c \<noteq> CHR ''='') k) (all_matches rest)"
      using am ks tk by simp
    ultimately show ?thesis using dpre by blast
  qed
qed

lemma index_of_char:
  "index_of [c] s = (if c \<in> set s then Some (length (takeWhile (\<lambda>d. d \<noteq> c) s)) else None)"
  by (induction s) auto

lemma f_key_field_of:
  "f_key (field_of s) = takeWhile (\<lambda>c. c \<noteq> CHR ''='') s"
proof (cases "CHR ''='' \<in> set s")
  case True
  then have "split_js ''='' s = take (length (takeWhile (\<lambda>d. d \<noteq> CHR ''='') s)) s #
      split_js ''='' (drop (length (takeWhile (\<lambda>d. d \<noteq> CHR ''='') s) + 1) s)"
    by (subst split_js.simps) (simp add: index_of_char)
  then show ?thesis
    using takeWhile_eq_take [of "\<lambda>d. d \<noteq> CHR ''=''" s] by (simp add: field_of_def Let_def)
next
  case False
  then have sp: "split_js ''='' s = [s]"
    by (subst split_js.simps) (simp add: index_of_char)
  have tw: "takeWhile (\<lambda>c. c \<noteq> CHR ''='') s = s"
    using False by auto
  show ?thesis
    unfolding field_of_def Let_def sp tw by simp
qed

text \<open>
  C5, as stated: for every annotation value the number of fields is the number of
  matches of the key marker, and a value without a match has no field. The value that
  is the separator token \<^verbatim>\<open>__$key$__\<close> has no match and one field.
\<close>

theorem fields_count_counterexample:
  "all_matches ''__$key$__'' = [] \<and>
   annotation_fields ''__$key$__'' = [\<lparr>f_key = '''', f_value = None\<rparr>]"
  by code_simp

text \<open>
  C5, amended. For every annotation value without a dollar sign, the number of fields
  is the number of matches of the key marker; the fields are in the order of the
  matches, the key of a field being the key of its match up to the first \<^verbatim>\<open>=\<close> in it;
  and a value without a match has no field.
\<close>

theorem fields_follow_markers:
  assumes "CHR ''$'' \<notin> set v"
  shows "length (annotation_fields v) = length (all_matches v) \<and>
         map f_key (annotation_fields v) =
           map (\<lambda>(m0, k). takeWhile (\<lambda>c. c \<noteq> CHR ''='') k) (all_matches v) \<and>
         (all_matches v = [] \<longrightarrow> annotation_fields v = [])"
proof -
  from replace_loop_segments [OF assms safe_Nil disjI1 [OF refl]]
  obtain u segs where
    r: "replace_loop v v = u @ concat (map ((@) sep_token) segs)"
    and du: "CHR ''$'' \<notin> set u" and ds: "\<forall>s\<in>set segs. CHR ''$'' \<notin> set s"
    and ks: "map (takeWhile (\<lambda>c. c \<noteq> CHR ''='')) segs =
           map (\<lambda>(m0, k). takeWhile (\<lambda>c. c \<noteq> CHR ''='') k) (all_matches v)"
    by auto
  have f: "annotation_fields v = map field_of segs"
    using split_sep [OF du ds] r by (simp add: annotation_fields_def)
  have l: "length segs = length (all_matches v)"
    using ks by (metis length_map)
  have "map f_key (annotation_fields v) = map (takeWhile (\<lambda>c. c \<noteq> CHR ''='')) segs"
    using f by (simp add: f_key_field_of)
  with ks f l show ?thesis by auto
qed

theorem fields_follow_markers_witness:
  "CHR ''$'' \<notin> set ''foo=bar baz=qux done'' \<and>
   all_matches ''foo=bar baz=qux done'' = [(''foo='', ''foo''), ('' baz='', ''baz'')] \<and>
   length (annotation_fields ''foo=bar baz=qux done'') = 2 \<and>
   map f_key (annotation_fields ''foo=bar baz=qux done'') = [''foo'', ''baz''] \<and>
   CHR ''$'' \<notin> set ''request sent'' \<and>
   all_matches ''request sent'' = [] \<and>
   annotation_fields ''request sent'' = []"
proof -
  have d: "CHR ''$'' \<notin> set ''foo=bar baz=qux done''" by simp
  have m: "all_matches ''foo=bar baz=qux done'' = [(''foo='', ''foo''), ('' baz='', ''baz'')]"
    by code_simp
  have d': "CHR ''$'' \<notin> set ''request sent''" by simp
  have m': "all_matches ''request sent'' = []"
    by code_simp
  show ?thesis
    using d m d' m' fields_follow_markers [OF d] fields_follow_markers [OF d'] by simp
qed

end
